theory Spec2Isabelle
  imports Complex_Main "HOL-Library.Multiset" "HOL-Library.Log_Nat"
begin

section \<open>Land grid generator: the embedding\<close>

text \<open>
  The development follows \<^verbatim>\<open>server/scripts/generate-land-grid.py\<close> and the run-length
  loop of \<^verbatim>\<open>server/scripts/generate-land-grid-fast.py\<close>.

  Conventions of the embedding.
  \<^item> Python integers are \<^typ>\<open>int\<close>. Python floats are \<^typ>\<open>real\<close>. The classifier is
    modelled in exact arithmetic: rounding, overflow to infinity and NaN are outside of
    it. Where a property depends on rounding, the operations are rounded to binary64: the
    module constants, which are truncated quotients of literals, and a second version of
    the coordinate mapping and of the ray-casting test.
  \<^item> The module constants \<^verbatim>\<open>RESOLUTION\<close>, \<^verbatim>\<open>HEIGHT\<close> and \<^verbatim>\<open>WIDTH\<close> that every function
    reads are passed as a record, so that the functions can be run on small grids.
  \<^item> Every \<^verbatim>\<open>raise\<close> of the interpreter is a value \<open>Inl e\<close>; a normal return is \<open>Inr v\<close>.
  \<^item> The grid is a list of rows, each a list of cells \<open>0\<close> or \<open>1\<close>, mutated in place by the
    script and passed and returned here.
\<close>

subsection \<open>Errors and sequencing\<close>

datatype error = IndexError | ValueError | ZeroDivisionError

definition bindE :: "error + 'a \<Rightarrow> ('a \<Rightarrow> error + 'b) \<Rightarrow> error + 'b" where
  "bindE m f = (case m of Inl e \<Rightarrow> Inl e | Inr x \<Rightarrow> f x)"

text \<open>A \<^verbatim>\<open>for\<close> loop whose body may raise: the first error ends the loop.\<close>

fun foldE :: "('a \<Rightarrow> 's \<Rightarrow> error + 's) \<Rightarrow> 'a list \<Rightarrow> 's \<Rightarrow> error + 's" where
  "foldE f [] s = Inr s"
| "foldE f (x # xs) s = bindE (f x s) (foldE f xs)"

subsection \<open>Python primitives\<close>

text \<open>\<^verbatim>\<open>int(x)\<close> on a float truncates towards zero.\<close>

definition py_int :: "real \<Rightarrow> int" where
  "py_int x = (if x < 0 then \<lceil>x\<rceil> else \<lfloor>x\<rfloor>)"

text \<open>\<^verbatim>\<open>a / b\<close> raises on a zero divisor.\<close>

definition py_truediv :: "real \<Rightarrow> real \<Rightarrow> error + real" where
  "py_truediv a b = (if b = 0 then Inl ZeroDivisionError else Inr (a / b))"

text \<open>
  \<^verbatim>\<open>xs[i]\<close>: an index in \<open>[-n, n)\<close> is accepted, a negative one counting from the end;
  anything else raises \<^verbatim>\<open>IndexError\<close>.
\<close>

definition py_index :: "nat \<Rightarrow> int \<Rightarrow> error + nat" where
  "py_index n i =
     (if 0 \<le> i \<and> i < int n then Inr (nat i)
      else if - int n \<le> i \<and> i < 0 then Inr (nat (int n + i))
      else Inl IndexError)"

definition py_get :: "'a list \<Rightarrow> int \<Rightarrow> error + 'a" where
  "py_get xs i = bindE (py_index (length xs) i) (\<lambda>k. Inr (xs ! k))"

subsection \<open>Grid constants\<close>

record gridspec =
  resolution :: real
  height :: int
  width :: int

text \<open>
  Rounding to binary64, to the nearest value with a 53-bit significand and ties to an even
  one, as a float literal and a float division are rounded. \<open>binary_exponent x\<close> is the
  \<open>e\<close> with \<open>2^e \<le> x < 2^(e+1)\<close> for a positive \<open>x\<close>; below \<open>2^-1022\<close> the spacing stays that
  of the subnormal numbers. Overflow is not modelled.
\<close>

definition pow2 :: "int \<Rightarrow> real" where
  "pow2 e = (if 0 \<le> e then 2 ^ nat e else 1 / 2 ^ nat (- e))"

definition binary_exponent :: "real \<Rightarrow> int" where
  "binary_exponent x = (if 1 \<le> x then bitlen \<lfloor>x\<rfloor> - 1 else - bitlen (\<lceil>1 / x\<rceil> - 1))"

definition round_half_even :: "real \<Rightarrow> int" where
  "round_half_even m =
     (let f = \<lfloor>m\<rfloor>; d = m - real_of_int f in
      if d < 1 / 2 then f else if 1 / 2 < d then f + 1 else if even f then f else f + 1)"

definition binary64 :: "real \<Rightarrow> real" where
  "binary64 x =
     (if x = 0 then 0
      else let e = max (binary_exponent \<bar>x\<bar>) (- 1022) - 52
           in real_of_int (round_half_even (x / pow2 e)) * pow2 e)"

text \<open>
  \<^verbatim>\<open>RESOLUTION = 0.02\<close>, \<^verbatim>\<open>HEIGHT = int(180 / RESOLUTION)\<close>, \<^verbatim>\<open>WIDTH = int(360 / RESOLUTION)\<close>
  of \<^verbatim>\<open>generate-land-grid.py\<close>.
\<close>

definition RESOLUTION :: real where
  "RESOLUTION = binary64 (2 / 100)"

definition HEIGHT :: int where
  "HEIGHT = py_int (binary64 (180 / RESOLUTION))"

definition WIDTH :: int where
  "WIDTH = py_int (binary64 (360 / RESOLUTION))"

text \<open>\<^verbatim>\<open>RESOLUTION = 0.05\<close> and the same two quotients of \<^verbatim>\<open>generate-land-grid-fast.py\<close>.\<close>

definition RESOLUTION_fast :: real where
  "RESOLUTION_fast = binary64 (5 / 100)"

definition WIDTH_fast :: int where
  "WIDTH_fast = py_int (binary64 (360 / RESOLUTION_fast))"

definition HEIGHT_fast :: int where
  "HEIGHT_fast = py_int (binary64 (180 / RESOLUTION_fast))"

definition land_grid :: gridspec where
  "land_grid = \<lparr>resolution = RESOLUTION, height = HEIGHT, width = WIDTH\<rparr>"

definition land_grid_fast :: gridspec where
  "land_grid_fast = \<lparr>resolution = RESOLUTION_fast, height = HEIGHT_fast, width = WIDTH_fast\<rparr>"

subsection \<open>Coordinate mapping\<close>

definition lat_lon_to_grid :: "gridspec \<Rightarrow> real \<Rightarrow> real \<Rightarrow> error + (int \<times> int)" where
  "lat_lon_to_grid gs lat lon =
     bindE (py_truediv (90 - lat) (resolution gs)) (\<lambda>qr.
     bindE (py_truediv (lon + 180) (resolution gs)) (\<lambda>qc.
       let row = py_int qr;
           col = py_int qc;
           row = max 0 (min (height gs - 1) row);
           col = max 0 (min (width gs - 1) col)
       in Inr (row, col)))"

definition grid_to_lat_lon :: "gridspec \<Rightarrow> int \<Rightarrow> int \<Rightarrow> real \<times> real" where
  "grid_to_lat_lon gs row col =
     (let lat = 90 - (real_of_int row + 0.5) * resolution gs;
          lon = - 180 + (real_of_int col + 0.5) * resolution gs
      in (lat, lon))"

text \<open>
  The same two functions with every float operation rounded to binary64, the integer
  operands converted first: what the interpreter computes, short of overflow.
\<close>

definition lat_lon_to_grid_b64 :: "gridspec \<Rightarrow> real \<Rightarrow> real \<Rightarrow> error + (int \<times> int)" where
  "lat_lon_to_grid_b64 gs lat lon =
     bindE (py_truediv (binary64 (90 - lat)) (resolution gs)) (\<lambda>qr.
     bindE (py_truediv (binary64 (lon + 180)) (resolution gs)) (\<lambda>qc.
       let row = py_int (binary64 qr);
           col = py_int (binary64 qc);
           row = max 0 (min (height gs - 1) row);
           col = max 0 (min (width gs - 1) col)
       in Inr (row, col)))"

definition grid_to_lat_lon_b64 :: "gridspec \<Rightarrow> int \<Rightarrow> int \<Rightarrow> real \<times> real" where
  "grid_to_lat_lon_b64 gs row col =
     (let lat = binary64 (90 - binary64 (binary64 (binary64 (real_of_int row) + 1 / 2) * resolution gs));
          lon = binary64 (- 180 + binary64 (binary64 (binary64 (real_of_int col) + 1 / 2) * resolution gs))
      in (lat, lon))"

subsection \<open>The dense grid\<close>

type_synonym grid = "int list list"


text \<open>\<^verbatim>\<open>[[0] * WIDTH for _ in range(HEIGHT)]\<close>: the rows are distinct lists.\<close>

definition empty_grid :: "gridspec \<Rightarrow> grid" where
  "empty_grid gs = replicate (nat (height gs)) (replicate (nat (width gs)) 0)"

subsection \<open>Point in polygon\<close>

text \<open>
  One iteration of the ray-casting loop, for the edge from vertex \<open>j\<close> to vertex \<open>i\<close>.
  Python's \<^verbatim>\<open>and\<close> evaluates the quotient only when the first conjunct holds.
\<close>

definition edge_toggle :: "real \<Rightarrow> real \<Rightarrow> real \<times> real \<Rightarrow> real \<times> real \<Rightarrow> bool \<Rightarrow> error + bool" where
  "edge_toggle x y vi vj inside =
     (let (xi, yi) = vi; (xj, yj) = vj in
      if (yi > y) \<noteq> (yj > y) then
        bindE (py_truediv ((xj - xi) * (y - yi)) (yj - yi)) (\<lambda>q.
          Inr (if x < q + xi then \<not> inside else inside))
      else Inr inside)"

text \<open>The loop over \<open>i\<close>; \<open>vj\<close> is \<^verbatim>\<open>polygon[j]\<close>, which becomes \<^verbatim>\<open>polygon[i]\<close> after each step.\<close>

fun pip_loop :: "real \<Rightarrow> real \<Rightarrow> (real \<times> real) list \<Rightarrow> real \<times> real \<Rightarrow> bool \<Rightarrow> error + bool" where
  "pip_loop x y [] vj inside = Inr inside"
| "pip_loop x y (vi # rest) vj inside =
     bindE (edge_toggle x y vi vj inside) (pip_loop x y rest vi)"

text \<open>\<open>j\<close> starts at \<open>n - 1\<close>, the last vertex; with no vertex the loop body never runs.\<close>

definition point_in_polygon :: "real \<Rightarrow> real \<Rightarrow> (real \<times> real) list \<Rightarrow> error + bool" where
  "point_in_polygon x y polygon =
     (if polygon = [] then Inr False
      else pip_loop x y polygon (last polygon) False)"




subsection \<open>Marking shapes\<close>











subsection \<open>Loading features and building the grid\<close>












subsection \<open>Run-length encoding of rows\<close>

text \<open>
  The state of the scan of one row: the segments closed so far, \<open>in_land\<close>, the start of
  the open run, and \<open>total_land_cells\<close>.
\<close>

type_synonym rle_state = "(int \<times> int) list \<times> bool \<times> int \<times> int"

text \<open>The body of the loop over columns, given whether the cell at \<open>col\<close> is land.\<close>

definition rle_step :: "bool \<Rightarrow> int \<Rightarrow> rle_state \<Rightarrow> rle_state" where
  "rle_step land col st =
     (let (segments, in_land, start, total_land_cells) = st in
      if land then
        (if \<not> in_land then (segments, True, col, total_land_cells) else st)
      else
        (if in_land then
           (segments @ [(start, col - start)], False, start, total_land_cells + (col - start))
         else st))"

text \<open>After the loop: a run still open is closed at the row's end.\<close>

definition rle_close :: "int \<Rightarrow> rle_state \<Rightarrow> (int \<times> int) list \<times> int" where
  "rle_close W st =
     (let (segments, in_land, start, total_land_cells) = st in
      if in_land then (segments @ [(start, W - start)], total_land_cells + (W - start))
      else (segments, total_land_cells))"

text \<open>\<open>save_grid_compact_json\<close>: one row, the cell read as \<^verbatim>\<open>row[col] == 1\<close>; then all rows.\<close>

definition encode_row :: "int \<Rightarrow> int list \<Rightarrow> int \<Rightarrow> error + ((int \<times> int) list \<times> int)" where
  "encode_row W row total_land_cells =
     bindE (foldE (\<lambda>col st. bindE (py_get row col) (\<lambda>v. Inr (rle_step (v = 1) col st)))
              [0..W - 1] ([], False, 0, total_land_cells))
       (\<lambda>st. Inr (rle_close W st))"

definition save_grid_compact_json :: "int \<Rightarrow> grid \<Rightarrow> error + ((int \<times> int) list list \<times> int)" where
  "save_grid_compact_json W grid =
     foldE (\<lambda>row (encoded_rows, total_land_cells).
              bindE (encode_row W row total_land_cells) (\<lambda>(segments, total_land_cells).
                Inr (encoded_rows @ [segments], total_land_cells)))
       grid ([], 0)"

text \<open>
  \<open>generate_land_grid\<close> of the Shapely variant runs the same loop on \<open>is_land\<close>, the answer of
  the prepared geometry for the centre of the cell; the geometry library is a parameter
  here, as a predicate on \<open>(lon, lat)\<close>.
\<close>

definition rle_scan :: "int \<Rightarrow> (int \<Rightarrow> bool) \<Rightarrow> int \<Rightarrow> (int \<times> int) list \<times> int" where
  "rle_scan W is_land total_land_cells =
     rle_close W (fold (\<lambda>col. rle_step (is_land col) col) [0..W - 1] ([], False, 0, total_land_cells))"

definition generate_land_grid_row ::
  "gridspec \<Rightarrow> (real \<Rightarrow> real \<Rightarrow> bool) \<Rightarrow> int \<Rightarrow> int \<Rightarrow> (int \<times> int) list \<times> int" where
  "generate_land_grid_row gs contains_point row_idx total_land_cells =
     (let lat = 90 - (real_of_int row_idx + 0.5) * resolution gs in
      rle_scan (width gs)
        (\<lambda>col_idx. let lon = - 180 + (real_of_int col_idx + 0.5) * resolution gs
                    in contains_point lon lat)
        total_land_cells)"

subsection \<open>Bit packing\<close>

text \<open>\<^verbatim>\<open>range(start, stop, step)\<close> for a positive step.\<close>

definition py_range3 :: "int \<Rightarrow> int \<Rightarrow> int \<Rightarrow> int list" where
  "py_range3 start stop step =
     map (\<lambda>k. start + step * k) [0..(stop - start + step - 1) div step - 1]"

text \<open>
  The body of the loop over \<open>bit\<close>: the cell is read only when \<open>col < WIDTH\<close>, and
  \<^verbatim>\<open>byte |= (1 << (7 - bit))\<close> sets the bit.
\<close>

definition pack_bit :: "int \<Rightarrow> int list \<Rightarrow> int \<Rightarrow> int \<Rightarrow> int \<Rightarrow> error + int" where
  "pack_bit W row col_start b byte =
     (let col = col_start + b in
      if col < W then
        bindE (py_get row col) (\<lambda>v.
          Inr (if v = 1 then or byte (push_bit (nat (7 - b)) 1) else byte))
      else Inr byte)"

text \<open>\<^verbatim>\<open>bytearray.append\<close> accepts a value in \<open>range(256)\<close> only.\<close>

definition bytearray_append :: "int list \<Rightarrow> int \<Rightarrow> error + int list" where
  "bytearray_append packed byte =
     (if 0 \<le> byte \<and> byte < 256 then Inr (packed @ [byte]) else Inl ValueError)"

text \<open>One byte: eight bits from \<open>col_start\<close> on, appended to \<open>packed\<close>.\<close>

definition pack_chunk :: "int \<Rightarrow> int list \<Rightarrow> int \<Rightarrow> int list \<Rightarrow> error + int list" where
  "pack_chunk W row col_start packed =
     bindE (foldE (pack_bit W row col_start) [0..7] 0) (bytearray_append packed)"

definition pack_row :: "int \<Rightarrow> int list \<Rightarrow> int list \<Rightarrow> error + int list" where
  "pack_row W row packed = foldE (pack_chunk W row) (py_range3 0 W 8) packed"

text \<open>\<open>save_grid_binary\<close>, up to the bytes it writes to the file.\<close>

definition save_grid_binary :: "int \<Rightarrow> grid \<Rightarrow> error + int list" where
  "save_grid_binary W grid = foldE (pack_row W) grid []"

subsection \<open>Notions used to state the properties\<close>

definition wf_grid :: "gridspec \<Rightarrow> grid \<Rightarrow> bool" where
  "wf_grid gs g \<longleftrightarrow> int (length g) = height gs \<and> (\<forall>row \<in> set g. int (length row) = width gs)"

definition paint :: "(int \<times> int) set \<Rightarrow> grid \<Rightarrow> grid" where
  "paint S g =
     map (\<lambda>(r, row). map (\<lambda>(c, v). if (int r, int c) \<in> S then 1 else v) (enumerate 0 row))
       (enumerate 0 g)"


definition valid_spec :: "gridspec \<Rightarrow> bool" where
  "valid_spec gs \<longleftrightarrow> 0 < resolution gs \<and> 1 \<le> height gs \<and> 1 \<le> width gs"

definition crosses :: "real \<Rightarrow> real \<Rightarrow> real \<times> real \<Rightarrow> real \<times> real \<Rightarrow> bool" where
  "crosses x y vi vj \<longleftrightarrow>
     (snd vi > y) \<noteq> (snd vj > y) \<and>
     x < (fst vj - fst vi) * (y - snd vi) / (snd vj - snd vi) + fst vi"











definition covered :: "(int \<times> int) list \<Rightarrow> int \<Rightarrow> bool" where
  "covered segs c \<longleftrightarrow> (\<exists>sl \<in> set segs. fst sl \<le> c \<and> c < fst sl + snd sl)"

definition run_ok :: "(int \<Rightarrow> bool) \<Rightarrow> int \<Rightarrow> int \<times> int \<Rightarrow> bool" where
  "run_ok P B sl \<longleftrightarrow>
     0 \<le> fst sl \<and> 1 \<le> snd sl \<and> fst sl + snd sl \<le> B
       \<and> (\<forall>c. fst sl \<le> c \<and> c < fst sl + snd sl \<longrightarrow> P c)
       \<and> (fst sl = 0 \<or> \<not> P (fst sl - 1))
       \<and> (fst sl + snd sl = B \<or> \<not> P (fst sl + snd sl))"

definition closed_runs :: "(int \<Rightarrow> bool) \<Rightarrow> int \<Rightarrow> int \<Rightarrow> (int \<times> int) list \<Rightarrow> int \<Rightarrow> bool" where
  "closed_runs P t B segs tot \<longleftrightarrow>
     (\<forall>sl \<in> set segs. run_ok P B sl \<and> fst sl + snd sl < B)
     \<and> sorted_wrt (\<lambda>a b. fst a + snd a < fst b) segs
     \<and> (\<forall>c. 0 \<le> c \<and> c < B \<longrightarrow> (P c \<longleftrightarrow> covered segs c))
     \<and> tot = t + sum_list (map snd segs)"

definition open_run :: "(int \<Rightarrow> bool) \<Rightarrow> int \<Rightarrow> int \<Rightarrow> bool" where
  "open_run P n start \<longleftrightarrow>
     0 \<le> start \<and> start < n \<and> (\<forall>c. start \<le> c \<and> c < n \<longrightarrow> P c) \<and> (start = 0 \<or> \<not> P (start - 1))"

fun rle_inv :: "(int \<Rightarrow> bool) \<Rightarrow> int \<Rightarrow> int \<Rightarrow> rle_state \<Rightarrow> bool" where
  "rle_inv P t n (segs, in_land, start, tot) =
     (if in_land then closed_runs P t start segs tot \<and> open_run P n start
      else closed_runs P t n segs tot)"

text \<open>
  Modelled from the spec: the replay of a row's pairs, for which the repository has no
  code. Each run is OR-ed into an all-zero row of width \<open>W\<close>.
\<close>

definition or_run :: "int \<times> int \<Rightarrow> int list \<Rightarrow> int list" where
  "or_run sl acc =
     map (\<lambda>(c, v). if fst sl \<le> int c \<and> int c < fst sl + snd sl then 1 else v) (enumerate 0 acc)"

definition replay_rle :: "int \<Rightarrow> (int \<times> int) list \<Rightarrow> int list" where
  "replay_rle W segs = fold or_run segs (replicate (nat W) 0)"

definition rle_row_ok :: "(int \<Rightarrow> bool) \<Rightarrow> int \<Rightarrow> (int \<times> int) list \<Rightarrow> bool" where
  "rle_row_ok P W segs \<longleftrightarrow>
     (\<forall>sl \<in> set segs. run_ok P W sl)
     \<and> sorted_wrt (\<lambda>a b. fst a + snd a < fst b) segs
     \<and> (\<forall>c. 0 \<le> c \<and> c < W \<longrightarrow> (P c \<longleftrightarrow> covered segs c))"

text \<open>
  Modelled from the spec: the decoder of the packed stream, for which the repository has
  no code. With the width and the height known, cell \<open>(r, c)\<close> is bit \<open>7 - c mod 8\<close> of byte
  \<open>c div 8\<close> of the row's group of \<open>ceil(W / 8)\<close> bytes; a stream of another length is refused.
\<close>

definition row_bytes :: "int \<Rightarrow> nat" where
  "row_bytes W = nat ((W + 7) div 8)"

definition unpack_bits :: "int \<Rightarrow> nat \<Rightarrow> int list \<Rightarrow> grid option" where
  "unpack_bits W H packed =
     (if length packed = H * row_bytes W then
        Some (map (\<lambda>r. map (\<lambda>c. if bit (packed ! (r * row_bytes W + nat (c div 8))) (nat (7 - c mod 8))
                                   then 1 else 0) [0..W - 1]) [0..<H])
      else None)"

definition land_at :: "int \<Rightarrow> int list \<Rightarrow> int \<Rightarrow> bool" where
  "land_at W row col \<longleftrightarrow> col < W \<and> row ! nat col = 1"

definition set_bit_if :: "int \<Rightarrow> int list \<Rightarrow> int \<Rightarrow> int \<Rightarrow> int \<Rightarrow> int" where
  "set_bit_if W row col_start b byte =
     (if land_at W row (col_start + b) then or byte (push_bit (nat (7 - b)) 1) else byte)"

definition chunk_byte :: "int \<Rightarrow> int list \<Rightarrow> int \<Rightarrow> int" where
  "chunk_byte W row col_start = fold (set_bit_if W row col_start) [0..7] 0"

definition row_packed :: "int \<Rightarrow> int list \<Rightarrow> int list" where
  "row_packed W row = map (chunk_byte W row) (py_range3 0 W 8)"

section \<open>Properties\<close>

subsection \<open>Sequencing\<close>

lemma bindE_Inr [simp]: "bindE (Inr x) f = f x"
  by (simp add: bindE_def)

lemma bindE_Inl [simp]: "bindE (Inl e) f = Inl e"
  by (simp add: bindE_def)

lemma foldE_append: "foldE f (xs @ ys) s = bindE (foldE f xs s) (foldE f ys)"
  by (induction xs arbitrary: s) (auto simp: bindE_def split: sum.splits)

lemma py_truediv_nz [simp]: "b \<noteq> 0 \<Longrightarrow> py_truediv a b = Inr (a / b)"
  by (simp add: py_truediv_def)

lemma py_index_nonneg [simp]: "0 \<le> i \<Longrightarrow> i < int n \<Longrightarrow> py_index n i = Inr (nat i)"
  by (simp add: py_index_def)

lemma py_int_of_int_half: "0 \<le> k \<Longrightarrow> py_int (real_of_int k + 1 / 2) = k"
  by (simp add: py_int_def)

subsection \<open>Grid constants\<close>

lemma binary_exponent_bounds:
  assumes "0 < x"
  shows "pow2 (binary_exponent x) \<le> x \<and> x < pow2 (binary_exponent x + 1)"
proof (cases "1 \<le> x")
  case True
  let ?n = "\<lfloor>x\<rfloor>"
  have n: "0 < ?n" using True by simp
  have k: "1 \<le> bitlen ?n" using n by (simp add: bitlen_alt_def)
  have b: "2 ^ nat (bitlen ?n - 1) \<le> ?n" "?n < 2 ^ nat (bitlen ?n)"
    using bitlen_bounds [OF n] by simp_all
  have lo: "(2 :: real) ^ nat (bitlen ?n - 1) \<le> x"
  proof -
    have "real_of_int (2 ^ nat (bitlen ?n - 1)) \<le> real_of_int ?n"
      using b(1) by (simp only: of_int_le_iff)
    also have "\<dots> \<le> x" by simp
    finally show ?thesis by simp
  qed
  have hi: "x < (2 :: real) ^ nat (bitlen ?n)"
  proof -
    have "?n + 1 \<le> 2 ^ nat (bitlen ?n)" using b(2) by simp
    then have "real_of_int (?n + 1) \<le> real_of_int (2 ^ nat (bitlen ?n))"
      by (simp only: of_int_le_iff)
    then have "real_of_int ?n + 1 \<le> 2 ^ nat (bitlen ?n)" by simp
    moreover have "x < real_of_int ?n + 1" by linarith
    ultimately show ?thesis by linarith
  qed
  have "nat (bitlen ?n - 1 + 1) = nat (bitlen ?n)" by simp
  then show ?thesis
    using True k lo hi by (simp add: binary_exponent_def pow2_def)
next
  case False
  let ?y = "1 / x"
  let ?m = "\<lceil>?y\<rceil> - 1"
  have y: "1 < ?y" using assms False by simp
  then have m: "0 < ?m" by simp
  let ?k = "bitlen ?m"
  have k: "1 \<le> ?k" using m by (simp add: bitlen_alt_def)
  have b: "2 ^ nat (?k - 1) \<le> ?m" "?m < 2 ^ nat ?k"
    using bitlen_bounds [OF m] by simp_all
  have ylo: "(2 :: real) ^ nat (?k - 1) < ?y"
  proof -
    have "real_of_int (2 ^ nat (?k - 1)) \<le> real_of_int ?m"
      using b(1) by (simp only: of_int_le_iff)
    then have "2 ^ nat (?k - 1) \<le> real_of_int \<lceil>?y\<rceil> - 1" by simp
    moreover have "real_of_int \<lceil>?y\<rceil> - 1 < ?y" by linarith
    ultimately show ?thesis by linarith
  qed
  have yhi: "?y \<le> (2 :: real) ^ nat ?k"
  proof -
    have "?m + 1 \<le> 2 ^ nat ?k" using b(2) by simp
    then have "real_of_int (?m + 1) \<le> real_of_int (2 ^ nat ?k)"
      by (simp only: of_int_le_iff)
    then have "real_of_int \<lceil>?y\<rceil> \<le> 2 ^ nat ?k" by simp
    moreover have "?y \<le> real_of_int \<lceil>?y\<rceil>" by linarith
    ultimately show ?thesis by linarith
  qed
  have lo: "1 / 2 ^ nat ?k \<le> x"
    using yhi assms by (simp add: field_simps)
  have hi: "x < pow2 (- ?k + 1)"
  proof (cases "?k = 1")
    case True
    then show ?thesis using False by (simp add: pow2_def)
  next
    case False
    then have "nat (?k - 1) = nat (- (- ?k + 1))" "\<not> 0 \<le> - ?k + 1"
      using k by simp_all
    moreover have "x < 1 / 2 ^ nat (?k - 1)"
      using ylo assms by (simp add: field_simps)
    ultimately show ?thesis by (simp add: pow2_def)
  qed
  have e: "binary_exponent x = - ?k" using False by (simp add: binary_exponent_def)
  have "\<not> 0 \<le> - ?k" using k by simp
  then have "pow2 (- ?k) = 1 / 2 ^ nat ?k" by (simp add: pow2_def)
  then show ?thesis
    using lo hi unfolding e by simp
qed

subsection \<open>Rounding error of binary64\<close>

lemma pow2_powr: "pow2 e = 2 powr real_of_int e"
proof (cases "0 \<le> e")
  case True
  then show ?thesis
    using powr_realpow [of 2 "nat e"] by (simp add: pow2_def)
next
  case False
  then have "2 powr real_of_int e = 1 / 2 powr real_of_int (- e)"
    by (simp add: powr_minus divide_inverse)
  also have "\<dots> = 1 / 2 ^ nat (- e)"
    using False powr_realpow [of 2 "nat (- e)"] by simp
  finally show ?thesis using False by (simp add: pow2_def)
qed

lemma pow2_pos: "0 < pow2 e"
  by (simp add: pow2_powr)

lemma pow2_add: "pow2 (a + b) = pow2 a * pow2 b"
  by (simp add: pow2_powr powr_add)

lemma pow2_mono: "a \<le> b \<Longrightarrow> pow2 a \<le> pow2 b"
  by (simp add: pow2_powr)

lemma round_half_even_error: "\<bar>real_of_int (round_half_even m) - m\<bar> \<le> 1 / 2"
  unfolding round_half_even_def Let_def by (auto simp: abs_le_iff)

lemma binary64_error_ulp:
  assumes "x \<noteq> 0"
  shows "\<bar>binary64 x - x\<bar> \<le> pow2 (max (binary_exponent \<bar>x\<bar>) (- 1022) - 52) / 2"
proof -
  let ?e = "max (binary_exponent \<bar>x\<bar>) (- 1022) - 52"
  let ?m = "x / pow2 ?e"
  have p: "0 < pow2 ?e" by (rule pow2_pos)
  have "binary64 x - x = (real_of_int (round_half_even ?m) - ?m) * pow2 ?e"
    using assms p by (simp add: binary64_def Let_def field_simps)
  then have "\<bar>binary64 x - x\<bar> = \<bar>real_of_int (round_half_even ?m) - ?m\<bar> * pow2 ?e"
    using p by (simp add: abs_mult)
  also have "\<dots> \<le> 1 / 2 * pow2 ?e"
    using round_half_even_error [of ?m] p by (intro mult_right_mono) simp_all
  finally show ?thesis by simp
qed

lemma binary64_error:
  "\<bar>binary64 x - x\<bar> \<le> \<bar>x\<bar> / 2 ^ 53 + 1 / 2 ^ 1075"
proof (cases "x = 0")
  case True
  then show ?thesis by (simp add: binary64_def)
next
  case False
  let ?E = "binary_exponent \<bar>x\<bar>"
  have pos: "0 < \<bar>x\<bar>" using False by simp
  have b: "pow2 ?E \<le> \<bar>x\<bar>"
    using binary_exponent_bounds [OF pos] by simp
  have u: "\<bar>binary64 x - x\<bar> \<le> pow2 (max ?E (- 1022) - 52) / 2"
    using False by (rule binary64_error_ulp)
  show ?thesis
  proof (cases "- 1022 \<le> ?E")
    case True
    then have "pow2 (max ?E (- 1022) - 52) / 2 = pow2 (?E + (- 53))"
      using pow2_add [of "?E - 52" "- 1"] by (simp add: max_def pow2_def)
    also have "\<dots> = pow2 ?E * pow2 (- 53)"
      by (rule pow2_add)
    also have "\<dots> = pow2 ?E / 2 ^ 53"
      by (simp add: pow2_def [of "- 53"])
    also have "\<dots> \<le> \<bar>x\<bar> / 2 ^ 53"
      using b by (simp add: divide_right_mono)
    finally have "\<bar>binary64 x - x\<bar> \<le> \<bar>x\<bar> / 2 ^ 53"
      using u by (rule order_trans [rotated])
    moreover have "0 \<le> 1 / (2 :: real) ^ 1075" by simp
    ultimately show ?thesis by (rule add_increasing2 [rotated])
  next
    case False
    then have "pow2 (max ?E (- 1022) - 52) / 2 = 1 / 2 ^ 1075"
      by (simp add: max_def pow2_def)
    then have "\<bar>binary64 x - x\<bar> \<le> 1 / 2 ^ 1075"
      using u by (simp only:)
    moreover have "0 \<le> \<bar>x\<bar> / 2 ^ 53" by simp
    ultimately show ?thesis by (rule add_increasing [rotated])
  qed
qed

lemma binary64_near:
  assumes "\<bar>x\<bar> \<le> 20000"
  shows "\<bar>binary64 x - x\<bar> \<le> 1 / 100000000000"
proof -
  have "\<bar>binary64 x - x\<bar> \<le> \<bar>x\<bar> / 2 ^ 53 + 1 / 2 ^ 1075"
    by (rule binary64_error)
  also have "\<dots> \<le> 20000 / 2 ^ 53 + 1 / 2 ^ 1075"
    using assms by (simp add: divide_right_mono)
  also have "\<dots> \<le> 1 / 100000000000"
    by simp
  finally show ?thesis .
qed

lemma binary64_scaled_index:
  assumes R: "1 / 100 \<le> R" "R \<le> 1" and k: "0 \<le> k" "k \<le> 18000"
    and span: "(real_of_int k + 1 / 2) * R \<le> 361"
  defines "p \<equiv> binary64 (binary64 (binary64 (real_of_int k) + 1 / 2) * R)"
  shows "\<bar>p - (real_of_int k + 1 / 2) * R\<bar> \<le> 3 / 100000000000"
proof -
  let ?K = "real_of_int k"
  let ?a0 = "binary64 ?K"
  let ?a1 = "binary64 (?a0 + 1 / 2)"
  have K: "0 \<le> ?K" "?K \<le> 18000" using k by simp_all
  have a0: "\<bar>?a0 - ?K\<bar> \<le> 1 / 100000000000"
    using K by (intro binary64_near) simp
  have a1: "\<bar>?a1 - (?a0 + 1 / 2)\<bar> \<le> 1 / 100000000000"
    using K a0 by (intro binary64_near) linarith
  have a1K: "\<bar>?a1 - (?K + 1 / 2)\<bar> \<le> 2 / 100000000000"
    using a0 a1 by linarith
  have "\<bar>?a1 * R - (?K + 1 / 2) * R\<bar> = \<bar>?a1 - (?K + 1 / 2)\<bar> * R"
    using R by (simp add: abs_mult left_diff_distrib [symmetric] del: distrib_right_numeral)
  also have "\<dots> \<le> 2 / 100000000000 * 1"
    using a1K R by (intro mult_mono) simp_all
  finally have scaled: "\<bar>?a1 * R - (?K + 1 / 2) * R\<bar> \<le> 2 / 100000000000"
    by simp
  have "0 \<le> (?K + 1 / 2) * R" using K R by simp
  then have "\<bar>?a1 * R\<bar> \<le> 20000" using scaled span by linarith
  then have "\<bar>p - ?a1 * R\<bar> \<le> 1 / 100000000000"
    unfolding p_def by (rule binary64_near)
  then show ?thesis using scaled by linarith
qed

lemma py_int_near_half:
  assumes "0 \<le> k" "\<bar>q - (real_of_int k + 1 / 2)\<bar> < 1 / 2"
  shows "py_int q = k"
proof -
  have "real_of_int k < q" "q < real_of_int k + 1" using assms(2) by linarith+
  then have "\<lfloor>q\<rfloor> = k" by linarith
  moreover have "0 \<le> q" using assms(1) \<open>real_of_int k < q\<close> by linarith
  ultimately show ?thesis by (simp add: py_int_def)
qed

lemma binary64_quotient_index:
  assumes R: "1 / 100 \<le> R" "R \<le> 1" and k: "0 \<le> k" "k \<le> 18000"
    and d: "\<bar>d - (real_of_int k + 1 / 2) * R\<bar> \<le> 5 / 100000000000"
  shows "py_int (binary64 (d / R)) = k"
proof -
  let ?K = "real_of_int k"
  have Rpos: "0 < R" using R by linarith
  have "d / R - (?K + 1 / 2) = (d - (?K + 1 / 2) * R) / R"
    using Rpos by (simp add: field_simps)
  then have "\<bar>d / R - (?K + 1 / 2)\<bar> = \<bar>d - (?K + 1 / 2) * R\<bar> / R"
    using Rpos by (simp add: abs_divide del: distrib_right_numeral)
  also have "\<dots> \<le> (5 / 100000000000) / R"
    using d Rpos by (intro divide_right_mono) simp_all
  also have "\<dots> \<le> (5 / 100000000000) / (1 / 100)"
    using R by (intro divide_left_mono) simp_all
  finally have q0: "\<bar>d / R - (?K + 1 / 2)\<bar> \<le> 5 / 1000000000"
    by simp
  have "\<bar>d / R\<bar> \<le> 20000" using q0 k by linarith
  then have "\<bar>binary64 (d / R) - d / R\<bar> \<le> 1 / 100000000000"
    by (rule binary64_near)
  then have "\<bar>binary64 (d / R) - (?K + 1 / 2)\<bar> < 1 / 2"
    using q0 by linarith
  then show ?thesis using k(1) by (intro py_int_near_half)
qed

lemma binary64_row_round_trip:
  assumes R: "1 / 100 \<le> R" "R \<le> 1" and k: "0 \<le> k" "k \<le> 18000"
    and span: "(real_of_int k + 1 / 2) * R \<le> 361"
  shows "py_int (binary64 (binary64 (90 - binary64 (90 -
           binary64 (binary64 (binary64 (real_of_int k) + 1 / 2) * R))) / R)) = k"
proof -
  let ?p = "binary64 (binary64 (binary64 (real_of_int k) + 1 / 2) * R)"
  let ?lat = "binary64 (90 - ?p)"
  let ?d = "binary64 (90 - ?lat)"
  have p: "\<bar>?p - (real_of_int k + 1 / 2) * R\<bar> \<le> 3 / 100000000000"
    using assms by (rule binary64_scaled_index)
  have pos: "0 \<le> (real_of_int k + 1 / 2) * R" using k R by simp
  have "\<bar>90 - ?p\<bar> \<le> 20000" using p pos span by linarith
  then have lat: "\<bar>?lat - (90 - ?p)\<bar> \<le> 1 / 100000000000" by (rule binary64_near)
  have "\<bar>90 - ?lat\<bar> \<le> 20000" using lat p pos span by linarith
  then have "\<bar>?d - (90 - ?lat)\<bar> \<le> 1 / 100000000000" by (rule binary64_near)
  then have "\<bar>?d - (real_of_int k + 1 / 2) * R\<bar> \<le> 5 / 100000000000"
    using lat p by linarith
  then show ?thesis
    using R k by (intro binary64_quotient_index)
qed

lemma binary64_col_round_trip:
  assumes R: "1 / 100 \<le> R" "R \<le> 1" and k: "0 \<le> k" "k \<le> 18000"
    and span: "(real_of_int k + 1 / 2) * R \<le> 361"
  shows "py_int (binary64 (binary64 (binary64 (- 180 +
           binary64 (binary64 (binary64 (real_of_int k) + 1 / 2) * R)) + 180) / R)) = k"
proof -
  let ?p = "binary64 (binary64 (binary64 (real_of_int k) + 1 / 2) * R)"
  let ?lon = "binary64 (- 180 + ?p)"
  let ?d = "binary64 (?lon + 180)"
  have p: "\<bar>?p - (real_of_int k + 1 / 2) * R\<bar> \<le> 3 / 100000000000"
    using assms by (rule binary64_scaled_index)
  have pos: "0 \<le> (real_of_int k + 1 / 2) * R" using k R by simp
  have "\<bar>- 180 + ?p\<bar> \<le> 20000" using p pos span by linarith
  then have lon: "\<bar>?lon - (- 180 + ?p)\<bar> \<le> 1 / 100000000000" by (rule binary64_near)
  have "\<bar>?lon + 180\<bar> \<le> 20000" using lon p pos span by linarith
  then have "\<bar>?d - (?lon + 180)\<bar> \<le> 1 / 100000000000" by (rule binary64_near)
  then have "\<bar>?d - (real_of_int k + 1 / 2) * R\<bar> \<le> 5 / 100000000000"
    using lon p by linarith
  then show ?thesis
    using R k by (intro binary64_quotient_index)
qed

lemma bitlen_numeral [simp]:
  "bitlen (numeral k) = bitlen (numeral k div 2) + 1"
  "bitlen 1 = 1"
  by (subst compute_bitlen, simp)+


lemma RESOLUTION_value: "RESOLUTION = 5764607523034235 / 2 ^ 58"
  by (simp add: RESOLUTION_def binary64_def binary_exponent_def pow2_def round_half_even_def Let_def)

lemma RESOLUTION_fast_value: "RESOLUTION_fast = 7205759403792794 / 2 ^ 57"
  by (simp add: RESOLUTION_fast_def binary64_def binary_exponent_def pow2_def round_half_even_def Let_def)

lemma HEIGHT_quotient: "binary64 (180 / RESOLUTION) = 9000"
  by (simp add: RESOLUTION_value binary64_def binary_exponent_def pow2_def round_half_even_def Let_def)

lemma WIDTH_quotient: "binary64 (360 / RESOLUTION) = 18000"
  by (simp add: RESOLUTION_value binary64_def binary_exponent_def pow2_def round_half_even_def Let_def)

lemma HEIGHT_fast_quotient: "binary64 (180 / RESOLUTION_fast) = 3600"
  by (simp add: RESOLUTION_fast_value binary64_def binary_exponent_def pow2_def round_half_even_def Let_def)

lemma WIDTH_fast_quotient: "binary64 (360 / RESOLUTION_fast) = 7200"
  by (simp add: RESOLUTION_fast_value binary64_def binary_exponent_def pow2_def round_half_even_def Let_def)

lemma grid_dimension_values:
  "HEIGHT = 9000" "WIDTH = 18000" "HEIGHT_fast = 3600" "WIDTH_fast = 7200"
  by (simp_all add: HEIGHT_def WIDTH_def HEIGHT_fast_def WIDTH_fast_def HEIGHT_quotient
      WIDTH_quotient HEIGHT_fast_quotient WIDTH_fast_quotient py_int_def)

lemma land_grid_values:
  "resolution land_grid = 5764607523034235 / 2 ^ 58"
  "height land_grid = 9000" "width land_grid = 18000"
  "resolution land_grid_fast = 7205759403792794 / 2 ^ 57"
  "height land_grid_fast = 3600" "width land_grid_fast = 7200"
  by (simp_all add: land_grid_def land_grid_fast_def RESOLUTION_value RESOLUTION_fast_value
      grid_dimension_values)

text \<open>
  C4. With the literals and the quotients rounded to binary64 and the quotients truncated
  as \<^verbatim>\<open>int()\<close> does, the grid of \<^verbatim>\<open>generate-land-grid.py\<close> (resolution \<open>0.02\<close>) has \<open>9000\<close> rows
  and \<open>18000\<close> columns, and that of \<^verbatim>\<open>generate-land-grid-fast.py\<close> (resolution \<open>0.05\<close>) has
  \<open>3600\<close> rows and \<open>7200\<close> columns; these are the rounded values of the float quotients and
  of the exact quotients \<open>180 / resolution\<close> and \<open>360 / resolution\<close>.
\<close>

theorem grid_dimensions:
  "HEIGHT = 9000 \<and> WIDTH = 18000
     \<and> HEIGHT = round (binary64 (180 / RESOLUTION)) \<and> WIDTH = round (binary64 (360 / RESOLUTION))
     \<and> HEIGHT = round (180 / (2 / 100) :: real) \<and> WIDTH = round (360 / (2 / 100) :: real)
     \<and> HEIGHT_fast = 3600 \<and> WIDTH_fast = 7200
     \<and> HEIGHT_fast = round (binary64 (180 / RESOLUTION_fast))
     \<and> WIDTH_fast = round (binary64 (360 / RESOLUTION_fast))
     \<and> HEIGHT_fast = round (180 / (5 / 100) :: real) \<and> WIDTH_fast = round (360 / (5 / 100) :: real)"
  by (simp add: HEIGHT_def WIDTH_def HEIGHT_fast_def WIDTH_fast_def HEIGHT_quotient WIDTH_quotient
      HEIGHT_fast_quotient WIDTH_fast_quotient py_int_def)

lemma valid_spec_land_grid: "valid_spec land_grid \<and> valid_spec land_grid_fast"
  by (simp add: valid_spec_def land_grid_values)

subsection \<open>Coordinate mapping\<close>

lemma lat_lon_to_grid_total:
  assumes "resolution gs \<noteq> 0"
  shows "lat_lon_to_grid gs lat lon =
           Inr (max 0 (min (height gs - 1) (py_int ((90 - lat) / resolution gs))),
                max 0 (min (width gs - 1) (py_int ((lon + 180) / resolution gs))))"
  using assms by (simp add: lat_lon_to_grid_def Let_def)

lemma exact_cell_centre_round_trip:
  assumes "0 < resolution gs"
    and "0 \<le> row" and "row < height gs"
    and "0 \<le> col" and "col < width gs"
  shows "lat_lon_to_grid gs (fst (grid_to_lat_lon gs row col)) (snd (grid_to_lat_lon gs row col))
           = Inr (row, col)"
proof -
  let ?res = "resolution gs"
  have nz: "?res \<noteq> 0" using assms(1) by simp
  have qr: "(90 - (90 - (real_of_int row + 0.5) * ?res)) / ?res = real_of_int row + 1 / 2"
    using nz by (simp add: field_simps)
  have qc: "(- 180 + (real_of_int col + 0.5) * ?res + 180) / ?res = real_of_int col + 1 / 2"
    using nz by (simp add: field_simps)
  have r: "py_int (real_of_int row + 1 / 2) = row"
    using assms(2) by (rule py_int_of_int_half)
  have c: "py_int (real_of_int col + 1 / 2) = col"
    using assms(4) by (rule py_int_of_int_half)
  show ?thesis
    unfolding lat_lon_to_grid_total [OF nz] grid_to_lat_lon_def Let_def fst_conv snd_conv qr qc r c
    using assms(2-5) by simp
qed

lemma land_grid_span:
  assumes "gs = land_grid \<or> gs = land_grid_fast" "0 \<le> k" "k < width gs"
  shows "1 / 100 \<le> resolution gs" "resolution gs \<le> 1" "k \<le> 18000"
    "(real_of_int k + 1 / 2) * resolution gs \<le> 361"
proof -
  show r1: "1 / 100 \<le> resolution gs" and r2: "resolution gs \<le> 1"
    using assms(1) by (auto simp: land_grid_values)
  show k: "k \<le> 18000"
    using assms by (auto simp: land_grid_values)
  have w: "real_of_int (width gs) * resolution gs \<le> 361"
    using assms(1) by (auto simp: land_grid_values)
  have "real_of_int k + 1 / 2 \<le> real_of_int (width gs)"
    using assms(3) by linarith
  then have "(real_of_int k + 1 / 2) * resolution gs \<le> real_of_int (width gs) * resolution gs"
    using r1 by (intro mult_right_mono) simp_all
  then show "(real_of_int k + 1 / 2) * resolution gs \<le> 361"
    using w by linarith
qed

lemma land_grid_height_le_width:
  "gs = land_grid \<or> gs = land_grid_fast \<Longrightarrow> height gs \<le> width gs"
  by (auto simp: land_grid_values)

lemma lat_lon_to_grid_b64_total:
  assumes "resolution gs \<noteq> 0"
  shows "lat_lon_to_grid_b64 gs lat lon =
           Inr (max 0 (min (height gs - 1) (py_int (binary64 (binary64 (90 - lat) / resolution gs)))),
                max 0 (min (width gs - 1) (py_int (binary64 (binary64 (lon + 180) / resolution gs)))))"
  using assms by (simp add: lat_lon_to_grid_b64_def Let_def)

lemma binary64_cell_centre_round_trip:
  assumes gs: "gs = land_grid \<or> gs = land_grid_fast"
    and "0 \<le> row" and "row < height gs" and "0 \<le> col" and "col < width gs"
  shows "lat_lon_to_grid_b64 gs (fst (grid_to_lat_lon_b64 gs row col))
           (snd (grid_to_lat_lon_b64 gs row col)) = Inr (row, col)"
proof -
  let ?R = "resolution gs"
  have row': "row < width gs"
    using assms(3) land_grid_height_le_width [OF gs] by linarith
  have r: "py_int (binary64 (binary64 (90 - binary64 (90 -
           binary64 (binary64 (binary64 (real_of_int row) + 1 / 2) * ?R))) / ?R)) = row"
    using land_grid_span [OF gs assms(2) row'] assms(2)
    by (intro binary64_row_round_trip)
  have c: "py_int (binary64 (binary64 (binary64 (- 180 +
           binary64 (binary64 (binary64 (real_of_int col) + 1 / 2) * ?R)) + 180) / ?R)) = col"
    using land_grid_span [OF gs assms(4,5)] assms(4)
    by (intro binary64_col_round_trip)
  have nz: "?R \<noteq> 0"
    using land_grid_span(1) [OF gs assms(4,5)] by linarith
  show ?thesis
    unfolding lat_lon_to_grid_b64_total [OF nz] grid_to_lat_lon_b64_def Let_def fst_conv snd_conv r c
    using assms(2-5) by simp
qed

text \<open>
  C3. Mapping an in-range cell to its centre with \<open>grid_to_lat_lon\<close> and the centre back
  with \<open>lat_lon_to_grid\<close> returns the cell: in exact arithmetic at every positive resolution,
  and, for the two grids of the scripts, also when every operation is rounded to binary64.
\<close>

theorem cell_centre_round_trip:
  assumes "0 < resolution gs"
    and "0 \<le> row" and "row < height gs"
    and "0 \<le> col" and "col < width gs"
  shows "lat_lon_to_grid gs (fst (grid_to_lat_lon gs row col)) (snd (grid_to_lat_lon gs row col))
           = Inr (row, col)
     \<and> (gs = land_grid \<or> gs = land_grid_fast \<longrightarrow>
           lat_lon_to_grid_b64 gs (fst (grid_to_lat_lon_b64 gs row col))
             (snd (grid_to_lat_lon_b64 gs row col)) = Inr (row, col))"
  using exact_cell_centre_round_trip [OF assms] binary64_cell_centre_round_trip [OF _ assms(2-5)]
  by blast

theorem cell_centre_round_trip_witness:
  "lat_lon_to_grid land_grid (fst (grid_to_lat_lon land_grid 8999 17999))
      (snd (grid_to_lat_lon land_grid 8999 17999)) = Inr (8999, 17999)
     \<and> lat_lon_to_grid_b64 land_grid (fst (grid_to_lat_lon_b64 land_grid 8999 17999))
      (snd (grid_to_lat_lon_b64 land_grid 8999 17999)) = Inr (8999, 17999)"
  using cell_centre_round_trip [of land_grid 8999 17999] by (simp add: land_grid_values)



subsection \<open>Painting cells\<close>

lemma length_paint [simp]: "length (paint S g) = length g"
  by (simp add: paint_def)

lemma length_paint_row [simp]: "r < length g \<Longrightarrow> length (paint S g ! r) = length (g ! r)"
  by (simp add: paint_def nth_enumerate_eq)

lemma paint_nth:
  "r < length g \<Longrightarrow> c < length (g ! r) \<Longrightarrow>
     paint S g ! r ! c = (if (int r, int c) \<in> S then 1 else g ! r ! c)"
  by (simp add: paint_def nth_enumerate_eq)

lemma grid_eqI:
  assumes "length g = length h"
    and "\<And>r. r < length g \<Longrightarrow> length (g ! r) = length (h ! r)"
    and "\<And>r c. r < length g \<Longrightarrow> c < length (g ! r) \<Longrightarrow> g ! r ! c = h ! r ! c"
  shows "g = (h :: grid)"
  using assms by (auto intro!: nth_equalityI)

lemma wf_grid_paint [simp]: "wf_grid gs (paint S g) = wf_grid gs g"
  by (simp add: wf_grid_def all_set_conv_all_nth)


lemma paint_empty [simp]: "paint {} g = g"
  by (rule grid_eqI) (auto simp: paint_nth)






lemma edge_toggle_crosses:
  "edge_toggle x y vi vj inside = Inr (if crosses x y vi vj then \<not> inside else inside)"
proof (cases "(snd vi > y) \<noteq> (snd vj > y)")
  case True
  then have "snd vj - snd vi \<noteq> 0" by auto
  with True show ?thesis
    by (simp add: edge_toggle_def crosses_def split_beta)
next
  case False
  then show ?thesis
    by (simp add: edge_toggle_def crosses_def split_beta)
qed

lemma pip_loop_total: "\<exists>b. pip_loop x y vs vj inside = Inr b"
  by (induction vs arbitrary: vj inside) (simp_all add: edge_toggle_crosses)

lemma point_in_polygon_total: "\<exists>b. point_in_polygon x y polygon = Inr b"
  by (auto simp: point_in_polygon_def pip_loop_total)

lemma crosses_horizontal: "snd vi = snd vj \<Longrightarrow> \<not> crosses x y vi vj"
  by (simp add: crosses_def)






















lemma wf_empty_grid: "0 \<le> height gs \<Longrightarrow> 0 \<le> width gs \<Longrightarrow> wf_grid gs (empty_grid gs)"
  by (simp add: wf_grid_def empty_grid_def)

lemma paint_unchanged_outside:
  "r < length g \<Longrightarrow> c < length (g ! r) \<Longrightarrow> (int r, int c) \<notin> S \<Longrightarrow> paint S g ! r ! c = g ! r ! c"
  by (simp add: paint_nth)


subsection \<open>Ray casting\<close>

text \<open>
  C9. The quotient of the ray-casting test is guarded: \<open>point_in_polygon\<close> returns a boolean,
  never \<open>ZeroDivisionError\<close>, for every ring and query point, and an iteration on a
  horizontal edge (both ends at the same \<open>y\<close>) leaves the inside flag as it was.
\<close>

theorem ray_casting_division_guard:
  "(\<exists>b. point_in_polygon x y polygon = Inr b)
     \<and> edge_toggle x y (xi, yh) (xj, yh) inside = Inr inside"
  by (simp add: point_in_polygon_total edge_toggle_crosses crosses_horizontal)

subsection \<open>Dilation\<close>








subsection \<open>Degenerate shapes\<close>









subsection \<open>Order independence\<close>



subsection \<open>Run-length encoding\<close>

lemma rle_inv_init: "rle_inv P t 0 ([], False, 0, t)"
  by (auto simp: closed_runs_def covered_def)

lemma run_ok_mono: "run_ok P B sl \<Longrightarrow> fst sl + snd sl < B \<Longrightarrow> B \<le> B' \<Longrightarrow> run_ok P B' sl"
  by (simp add: run_ok_def)

lemma covered_append:
  "covered (segs @ [(s, l)]) c \<longleftrightarrow> covered segs c \<or> (s \<le> c \<and> c < s + l)"
  by (auto simp: covered_def)

lemma closed_runs_not_covered:
  assumes "closed_runs P t B segs tot" "B - 1 \<le> c"
  shows "\<not> covered segs c"
proof
  assume "covered segs c"
  then obtain sl where "sl \<in> set segs" "fst sl \<le> c" "c < fst sl + snd sl"
    by (auto simp: covered_def)
  moreover from this assms(1) have "fst sl + snd sl < B"
    by (simp add: closed_runs_def)
  ultimately show False using assms(2) by linarith
qed

text \<open>Sea continues: the bound moves one column to the right.\<close>

lemma closed_runs_sea:
  assumes "closed_runs P t n segs tot" "\<not> P n"
  shows "closed_runs P t (n + 1) segs tot"
proof -
  have a: "\<forall>sl \<in> set segs. run_ok P (n + 1) sl \<and> fst sl + snd sl < n + 1"
  proof
    fix sl assume "sl \<in> set segs"
    then have "run_ok P n sl" "fst sl + snd sl < n"
      using assms(1) by (simp_all add: closed_runs_def)
    then show "run_ok P (n + 1) sl \<and> fst sl + snd sl < n + 1"
      using run_ok_mono [of P n sl "n + 1"] by simp
  qed
  have b: "\<forall>c. 0 \<le> c \<and> c < n + 1 \<longrightarrow> (P c \<longleftrightarrow> covered segs c)"
  proof (intro allI impI)
    fix c assume c: "0 \<le> c \<and> c < n + 1"
    show "P c \<longleftrightarrow> covered segs c"
    proof (cases "c = n")
      case True
      then show ?thesis
        using assms(2) closed_runs_not_covered [OF assms(1), of n] by simp
    next
      case False
      then have "c < n" using c by simp
      then show ?thesis using assms(1) c by (simp add: closed_runs_def)
    qed
  qed
  show ?thesis
    using a b assms(1) by (simp add: closed_runs_def)
qed

text \<open>A run that ends at column \<open>e\<close> is closed.\<close>

lemma closed_runs_close:
  assumes "closed_runs P t start segs tot" "open_run P e start" "B = e \<or> (B = e + 1 \<and> \<not> P e)"
  shows "(\<forall>sl \<in> set (segs @ [(start, e - start)]). run_ok P B sl)
       \<and> (B = e + 1 \<longrightarrow> closed_runs P t B (segs @ [(start, e - start)]) (tot + (e - start)))
       \<and> sorted_wrt (\<lambda>a b. fst a + snd a < fst b) (segs @ [(start, e - start)])
       \<and> (\<forall>c. 0 \<le> c \<and> c < B \<longrightarrow> (P c \<longleftrightarrow> covered (segs @ [(start, e - start)]) c))
       \<and> tot + (e - start) = t + sum_list (map snd (segs @ [(start, e - start)]))"
proof -
  have land: "0 \<le> start" "start < e" "\<And>c. start \<le> c \<Longrightarrow> c < e \<Longrightarrow> P c" "start = 0 \<or> \<not> P (start - 1)"
    using assms(2) by (simp_all add: open_run_def)
  have old: "run_ok P start sl" "fst sl + snd sl < start" if "sl \<in> set segs" for sl
    using assms(1) that by (simp_all add: closed_runs_def)
  have new: "run_ok P B (start, e - start)"
    using land assms(3) by (auto simp: run_ok_def)
  have oldB: "run_ok P B sl" if "sl \<in> set segs" for sl
    using run_ok_mono [OF old [OF that], of B] land(2) assms(3) by auto
  have i1: "\<forall>sl \<in> set (segs @ [(start, e - start)]). run_ok P B sl"
    using oldB new by auto
  have i1': "\<forall>sl \<in> set (segs @ [(start, e - start)]). fst sl + snd sl < B" if "B = e + 1"
    using old(2) land(2) that by fastforce
  have i2: "sorted_wrt (\<lambda>a b. fst a + snd a < fst b) (segs @ [(start, e - start)])"
    using assms(1) old(2) by (simp add: closed_runs_def sorted_wrt_append)
  have i4: "\<forall>c. 0 \<le> c \<and> c < B \<longrightarrow> (P c \<longleftrightarrow> covered (segs @ [(start, e - start)]) c)"
  proof (intro allI impI)
    fix c assume c: "0 \<le> c \<and> c < B"
    consider "c < start" | "start \<le> c" "c < e" | "c = e" "B = e + 1" "\<not> P e"
      using c assms(3) by fastforce
    then show "P c \<longleftrightarrow> covered (segs @ [(start, e - start)]) c"
    proof cases
      case 1
      then show ?thesis using assms(1) c by (simp add: closed_runs_def covered_append)
    next
      case 2
      then show ?thesis using land(3) by (simp add: covered_append)
    next
      case 3
      then show ?thesis
        using closed_runs_not_covered [OF assms(1), of e] land(2) by (simp add: covered_append)
    qed
  qed
  have i5: "tot + (e - start) = t + sum_list (map snd (segs @ [(start, e - start)]))"
    using assms(1) by (simp add: closed_runs_def)
  show ?thesis
    using i1 i1' i2 i4 i5 unfolding closed_runs_def by blast
qed

lemma open_run_start:
  assumes "closed_runs P t n segs tot" "P n" "0 \<le> n"
  shows "open_run P (n + 1) n"
proof -
  have "\<not> P (n - 1)" if "n \<noteq> 0"
    using assms closed_runs_not_covered [OF assms(1), of "n - 1"] that
    by (simp add: closed_runs_def)
  then show ?thesis
    using assms(2,3) by (auto simp: open_run_def)
qed

lemma open_run_extend: "open_run P n start \<Longrightarrow> P n \<Longrightarrow> open_run P (n + 1) start"
  by (simp add: open_run_def) (metis less_le zless_add1_eq)

lemma rle_inv_step:
  assumes "rle_inv P t n st" "0 \<le> n"
  shows "rle_inv P t (n + 1) (rle_step (P n) n st)"
proof -
  obtain segs in_land start tot where st: "st = (segs, in_land, start, tot)"
    by (cases st) auto
  show ?thesis
  proof (cases "P n"; cases in_land)
    assume a: "P n" "in_land"
    then show ?thesis
      using assms(1) by (simp add: st rle_step_def open_run_extend)
  next
    assume a: "P n" "\<not> in_land"
    then show ?thesis
      using assms by (simp add: st rle_step_def open_run_start)
  next
    assume a: "\<not> P n" "in_land"
    then have "closed_runs P t start segs tot" "open_run P n start"
      using assms(1) by (simp_all add: st)
    then have "closed_runs P t (n + 1) (segs @ [(start, n - start)]) (tot + (n - start))"
      using closed_runs_close [of P t start segs tot n "n + 1"] a(1) by blast
    then show ?thesis
      using a by (simp add: st rle_step_def)
  next
    assume a: "\<not> P n" "\<not> in_land"
    then show ?thesis
      using assms(1) by (simp add: st rle_step_def closed_runs_sea)
  qed
qed

lemma upto_snoc_nat: "[0..int (Suc n) - 1] = [0..int n - 1] @ [int n]"
  using upto_rec2 [of 0 "int n"] by simp

lemma rle_inv_fold:
  "rle_inv P t (int n) (fold (\<lambda>col. rle_step (P col) col) [0..int n - 1] ([], False, 0, t))"
proof (induction n)
  case 0
  show ?case using rle_inv_init [of P t] by simp
next
  case (Suc n)
  have step: "rle_inv P t (int n + 1)
      (rle_step (P (int n)) (int n) (fold (\<lambda>col. rle_step (P col) col) [0..int n - 1] ([], False, 0, t)))"
    by (rule rle_inv_step [OF Suc]) simp
  have e: "fold (\<lambda>col. rle_step (P col) col) [0..int (Suc n) - 1] ([], False, 0, t)
      = rle_step (P (int n)) (int n) (fold (\<lambda>col. rle_step (P col) col) [0..int n - 1] ([], False, 0, t))"
    unfolding upto_snoc_nat by simp
  have i: "int (Suc n) = int n + 1" by simp
  show ?case
    by (subst e, subst i, rule step)
qed

lemma rle_close_ok:
  assumes "rle_inv P t W st" "0 \<le> W"
  shows "rle_row_ok P W (fst (rle_close W st))
     \<and> snd (rle_close W st) = t + sum_list (map snd (fst (rle_close W st)))"
proof -
  obtain segs in_land start tot where st: "st = (segs, in_land, start, tot)"
    by (cases st) auto
  show ?thesis
  proof (cases in_land)
    case False
    then have "closed_runs P t W segs tot"
      using assms(1) by (simp add: st)
    then show ?thesis
      using False by (simp add: st rle_close_def rle_row_ok_def closed_runs_def)
  next
    case True
    then have "closed_runs P t start segs tot" "open_run P W start"
      using assms(1) by (simp_all add: st)
    then show ?thesis
      using closed_runs_close [of P t start segs tot W W] True
      by (simp add: st rle_close_def rle_row_ok_def)
  qed
qed

lemma rle_scan_ok:
  assumes "0 \<le> W"
  shows "rle_row_ok P W (fst (rle_scan W P t))
     \<and> snd (rle_scan W P t) = t + sum_list (map snd (fst (rle_scan W P t)))"
proof -
  have "rle_inv P t (int (nat W)) (fold (\<lambda>col. rle_step (P col) col) [0..int (nat W) - 1] ([], False, 0, t))"
    by (rule rle_inv_fold)
  then have "rle_inv P t W (fold (\<lambda>col. rle_step (P col) col) [0..W - 1] ([], False, 0, t))"
    using assms by simp
  then show ?thesis
    unfolding rle_scan_def using assms by (rule rle_close_ok)
qed

lemma or_run_nth:
  "length (or_run sl acc) = length acc"
  "c < length acc \<Longrightarrow>
     or_run sl acc ! c = (if fst sl \<le> int c \<and> int c < fst sl + snd sl then 1 else acc ! c)"
  by (simp_all add: or_run_def nth_enumerate_eq)

lemma covered_Cons:
  "covered (sl # segs) c \<longleftrightarrow> (fst sl \<le> c \<and> c < fst sl + snd sl) \<or> covered segs c"
  by (simp add: covered_def)

lemma replay_fold:
  "length (fold or_run segs acc) = length acc
   \<and> (\<forall>c < length acc. fold or_run segs acc ! c = (if covered segs (int c) then 1 else acc ! c))"
proof (induction segs arbitrary: acc)
  case Nil
  show ?case by (simp add: covered_def)
next
  case (Cons sl segs)
  show ?case
    using Cons.IH [of "or_run sl acc"] by (simp add: or_run_nth covered_Cons)
qed

lemma replay_rle_nth:
  "length (replay_rle W segs) = nat W"
  "c < nat W \<Longrightarrow> replay_rle W segs ! c = (if covered segs (int c) then 1 else 0)"
  using replay_fold [of segs "replicate (nat W) 0"] by (simp_all add: replay_rle_def)

lemma replay_rle_ok:
  assumes "rle_row_ok P W segs" "0 \<le> W"
  shows "replay_rle W segs = map (\<lambda>c. if P c then 1 else 0) [0..W - 1]"
proof (rule nth_equalityI)
  show "length (replay_rle W segs) = length (map (\<lambda>c. if P c then 1 else 0) [0..W - 1])"
    using assms(2) by (simp add: replay_rle_nth)
next
  fix i assume "i < length (replay_rle W segs)"
  then have i: "i < nat W" by (simp add: replay_rle_nth)
  then have "P (int i) \<longleftrightarrow> covered segs (int i)"
    using assms by (simp add: rle_row_ok_def)
  then show "replay_rle W segs ! i = map (\<lambda>c. if P c then 1 else 0) [0..W - 1] ! i"
    using i assms(2) by (simp add: replay_rle_nth)
qed

lemma rle_empty_iff:
  assumes "rle_row_ok P W segs"
  shows "segs = [] \<longleftrightarrow> (\<forall>c. 0 \<le> c \<and> c < W \<longrightarrow> \<not> P c)"
proof
  assume "segs = []"
  then show "\<forall>c. 0 \<le> c \<and> c < W \<longrightarrow> \<not> P c"
    using assms by (simp add: rle_row_ok_def covered_def)
next
  assume sea: "\<forall>c. 0 \<le> c \<and> c < W \<longrightarrow> \<not> P c"
  show "segs = []"
  proof (rule ccontr)
    assume "segs \<noteq> []"
    then obtain sl where sl: "sl \<in> set segs" by (cases segs) auto
    then have "run_ok P W sl" using assms by (simp add: rle_row_ok_def)
    then have "0 \<le> fst sl" "fst sl < W" "P (fst sl)"
      by (simp_all add: run_ok_def)
    then show False using sea by blast
  qed
qed

lemma foldE_reads:
  assumes "\<forall>col \<in> set cols. 0 \<le> col \<and> col < int (length row)"
  shows "foldE (\<lambda>col st. bindE (py_get row col) (\<lambda>v. Inr (rle_step (v = 1) col st))) cols st
       = Inr (fold (\<lambda>col. rle_step (row ! nat col = 1) col) cols st)"
  using assms by (induction cols arbitrary: st) (simp_all add: py_get_def)

lemma encode_row_scan:
  assumes "W \<le> int (length row)"
  shows "encode_row W row t = Inr (rle_scan W (\<lambda>c. row ! nat c = 1) t)"
proof -
  have "\<forall>col \<in> set [0..W - 1]. 0 \<le> col \<and> col < int (length row)"
    using assms by auto
  then show ?thesis
    by (simp add: encode_row_def rle_scan_def foldE_reads)
qed

lemma map_upto_nth: "map (\<lambda>c. f (row ! nat c)) [0..int (length row) - 1] = map f row"
proof (rule nth_equalityI)
  show "length (map (\<lambda>c. f (row ! nat c)) [0..int (length row) - 1]) = length (map f row)"
    by simp
next
  fix i assume "i < length (map (\<lambda>c. f (row ! nat c)) [0..int (length row) - 1])"
  then have i: "i < length row" by simp
  then have "[0..int (length row) - 1] ! i = int i"
    using nth_upto [of 0 i "int (length row) - 1"] by simp
  then show "map (\<lambda>c. f (row ! nat c)) [0..int (length row) - 1] ! i = map f row ! i"
    using i by simp
qed

text \<open>
  C1. For a row of width \<open>W\<close>, \<open>encode_row\<close> returns pairs \<open>(start, length)\<close> such that:
  replaying them into an all-zero row of width \<open>W\<close> gives the row back (a cell being land
  when it is \<open>1\<close>); a column is land exactly when a pair covers it; every pair is a maximal
  run inside \<open>[0, W)\<close>, closed at \<open>W\<close> when it reaches the last column; the pairs are in
  ascending order with a gap between consecutive ones; there is no pair exactly when the
  row has no land; and the running total grows by the sum of the lengths. The loop of
  the Shapely variant, on any land predicate, has the same properties.
\<close>

theorem rle_round_trip:
  assumes "int (length row) = W"
  shows "\<exists>segs tot. encode_row W row t = Inr (segs, tot)
     \<and> replay_rle W segs = map (\<lambda>v. if v = 1 then 1 else 0) row
     \<and> (\<forall>c. 0 \<le> c \<and> c < W \<longrightarrow> (row ! nat c = 1 \<longleftrightarrow> (\<exists>(s, l) \<in> set segs. s \<le> c \<and> c < s + l)))
     \<and> (\<forall>(s, l) \<in> set segs. 0 \<le> s \<and> 1 \<le> l \<and> s + l \<le> W
            \<and> (\<forall>c. s \<le> c \<and> c < s + l \<longrightarrow> row ! nat c = 1)
            \<and> (s = 0 \<or> row ! nat (s - 1) \<noteq> 1)
            \<and> (s + l = W \<or> row ! nat (s + l) \<noteq> 1))
     \<and> sorted_wrt (\<lambda>(s, l) (s', l'). s + l < s') segs
     \<and> (segs = [] \<longleftrightarrow> (\<forall>v \<in> set row. v \<noteq> 1))
     \<and> tot = t + sum_list (map snd segs)
     \<and> rle_row_ok is_land W (fst (rle_scan W is_land t))
     \<and> replay_rle W (fst (rle_scan W is_land t)) = map (\<lambda>c. if is_land c then 1 else 0) [0..W - 1]"
proof -
  let ?P = "\<lambda>c. row ! nat c = 1"
  let ?segs = "fst (rle_scan W ?P t)"
  let ?tot = "snd (rle_scan W ?P t)"
  have W: "0 \<le> W" using assms by auto
  have enc: "encode_row W row t = Inr (?segs, ?tot)"
    using assms by (simp add: encode_row_scan)
  have ok: "rle_row_ok ?P W ?segs" and tot: "?tot = t + sum_list (map snd ?segs)"
    using rle_scan_ok [OF W, of ?P t] by simp_all
  have rep: "replay_rle W ?segs = map (\<lambda>v. if v = 1 then 1 else 0) row"
    using replay_rle_ok [OF ok W] map_upto_nth [of "\<lambda>v. if v = 1 then 1 else 0" row] assms
    by simp
  have cov: "\<forall>c. 0 \<le> c \<and> c < W \<longrightarrow> (row ! nat c = 1 \<longleftrightarrow> (\<exists>(s, l) \<in> set ?segs. s \<le> c \<and> c < s + l))"
    using ok by (simp add: rle_row_ok_def covered_def split_beta)
  have runs: "\<forall>(s, l) \<in> set ?segs. 0 \<le> s \<and> 1 \<le> l \<and> s + l \<le> W
            \<and> (\<forall>c. s \<le> c \<and> c < s + l \<longrightarrow> row ! nat c = 1)
            \<and> (s = 0 \<or> row ! nat (s - 1) \<noteq> 1)
            \<and> (s + l = W \<or> row ! nat (s + l) \<noteq> 1)"
    using ok by (simp add: rle_row_ok_def run_ok_def split_beta)
  have srt: "sorted_wrt (\<lambda>(s, l) (s', l'). s + l < s') ?segs"
    using ok by (simp add: rle_row_ok_def case_prod_unfold)
  have "(\<forall>c. 0 \<le> c \<and> c < W \<longrightarrow> row ! nat c \<noteq> 1) \<longleftrightarrow> (\<forall>v \<in> set row. v \<noteq> 1)"
  proof
    assume a: "\<forall>c. 0 \<le> c \<and> c < W \<longrightarrow> row ! nat c \<noteq> 1"
    show "\<forall>v \<in> set row. v \<noteq> 1"
    proof
      fix v assume "v \<in> set row"
      then obtain i where "i < length row" "row ! i = v" by (auto simp: in_set_conv_nth)
      then show "v \<noteq> 1" using a [rule_format, of "int i"] assms by auto
    qed
  next
    assume "\<forall>v \<in> set row. v \<noteq> 1"
    then show "\<forall>c. 0 \<le> c \<and> c < W \<longrightarrow> row ! nat c \<noteq> 1"
      using assms by auto
  qed
  then have emp: "?segs = [] \<longleftrightarrow> (\<forall>v \<in> set row. v \<noteq> 1)"
    using rle_empty_iff [OF ok] by simp
  have fast: "rle_row_ok is_land W (fst (rle_scan W is_land t))"
    using rle_scan_ok [OF W, of is_land t] by simp
  have frep: "replay_rle W (fst (rle_scan W is_land t)) = map (\<lambda>c. if is_land c then 1 else 0) [0..W - 1]"
    using fast W by (rule replay_rle_ok)
  show ?thesis
    using enc rep cov runs srt emp tot fast frep by blast
qed

theorem rle_round_trip_witness:
  "encode_row 8 [0, 1, 1, 1, 0, 0, 1, 1] 0 = Inr ([(1, 3), (6, 2)], 5)
     \<and> replay_rle 8 [(1, 3), (6, 2)] = [0, 1, 1, 1, 0, 0, 1, 1]"
proof -
  have e: "encode_row 8 [0, 1, 1, 1, 0, 0, 1, 1] 0 = Inr ([(1, 3), (6, 2)], 5)"
    by (simp add: encode_row_def py_get_def py_index_def rle_step_def rle_close_def upto_rec1)
  have l: "int (length [0, 1, 1, 1, 0, 0, 1, 1 :: int]) = 8" by simp
  obtain segs tot where "encode_row 8 [0, 1, 1, 1, 0, 0, 1, 1] 0 = Inr (segs, tot)"
    and "replay_rle 8 segs = map (\<lambda>v. if v = 1 then 1 else 0) [0, 1, 1, 1, 0, 0, 1, 1 :: int]"
    using rle_round_trip [OF l, of 0] by blast
  then show ?thesis using e by simp
qed

subsection \<open>Bit packing\<close>

lemma pack_bit_eq:
  assumes "W \<le> int (length row)" "0 \<le> col_start" "0 \<le> b"
  shows "pack_bit W row col_start b byte = Inr (set_bit_if W row col_start b byte)"
  using assms by (simp add: pack_bit_def set_bit_if_def land_at_def py_get_def Let_def)

lemma foldE_pack_bit:
  assumes "W \<le> int (length row)" "0 \<le> col_start" "\<forall>b \<in> set bs. 0 \<le> b"
  shows "foldE (pack_bit W row col_start) bs byte = Inr (fold (set_bit_if W row col_start) bs byte)"
  using assms(3)
proof (induction bs arbitrary: byte)
  case Nil
  show ?case by simp
next
  case (Cons b bs)
  have "pack_bit W row col_start b byte = Inr (set_bit_if W row col_start b byte)"
    using assms(1,2) Cons.prems by (intro pack_bit_eq) simp_all
  then show ?case
    using Cons.IH Cons.prems by simp
qed

lemma bit_set_bit_if:
  "bit (set_bit_if W row col_start b byte) n \<longleftrightarrow>
     bit byte n \<or> (n = nat (7 - b) \<and> land_at W row (col_start + b))"
  by (auto simp: set_bit_if_def bit_or_iff bit_exp_iff)

lemma bit_fold_set_bit_if:
  "bit (fold (set_bit_if W row col_start) bs byte) n \<longleftrightarrow>
     bit byte n \<or> (\<exists>b \<in> set bs. n = nat (7 - b) \<and> land_at W row (col_start + b))"
  by (induction bs arbitrary: byte) (auto simp: bit_set_bit_if)

lemma bit_chunk_byte:
  "bit (chunk_byte W row col_start) n \<longleftrightarrow> n < 8 \<and> land_at W row (col_start + 7 - int n)"
proof -
  have "(\<exists>b \<in> set [0..7]. n = nat (7 - b) \<and> land_at W row (col_start + b))
      \<longleftrightarrow> n < 8 \<and> land_at W row (col_start + 7 - int n)"
  proof
    assume "\<exists>b \<in> set [0..7]. n = nat (7 - b) \<and> land_at W row (col_start + b)"
    then obtain b where b: "0 \<le> b" "b \<le> 7" "n = nat (7 - b)" "land_at W row (col_start + b)"
      by auto
    then have n: "n < 8" and e: "col_start + 7 - int n = col_start + b" by simp_all
    show "n < 8 \<and> land_at W row (col_start + 7 - int n)"
      unfolding e using n b(4) by simp
  next
    assume a: "n < 8 \<and> land_at W row (col_start + 7 - int n)"
    then have "7 - int n \<in> set [0..7]" "n = nat (7 - (7 - int n))"
      "land_at W row (col_start + (7 - int n))"
      by (simp_all add: algebra_simps)
    then show "\<exists>b \<in> set [0..7]. n = nat (7 - b) \<and> land_at W row (col_start + b)"
      by blast
  qed
  then show ?thesis
    by (simp add: chunk_byte_def bit_fold_set_bit_if)
qed

lemma chunk_byte_range: "0 \<le> chunk_byte W row col_start \<and> chunk_byte W row col_start < 256"
proof -
  have "take_bit 8 (chunk_byte W row col_start) = chunk_byte W row col_start"
    by (rule bit_eqI) (auto simp: bit_take_bit_iff bit_chunk_byte)
  then show ?thesis
    using take_bit_nonnegative [of 8 "chunk_byte W row col_start"]
      take_bit_int_less_exp [of 8 "chunk_byte W row col_start"]
    by simp
qed

lemma pack_chunk_eq:
  assumes "W \<le> int (length row)" "0 \<le> col_start"
  shows "pack_chunk W row col_start packed = Inr (packed @ [chunk_byte W row col_start])"
proof -
  have "foldE (pack_bit W row col_start) [0..7] 0 = Inr (chunk_byte W row col_start)"
    unfolding chunk_byte_def using assms by (intro foldE_pack_bit) simp_all
  then show ?thesis
    using chunk_byte_range [of W row col_start]
    by (simp add: pack_chunk_def bytearray_append_def)
qed

lemma foldE_pack_chunk:
  assumes "W \<le> int (length row)" "\<forall>cs \<in> set css. 0 \<le> cs"
  shows "foldE (pack_chunk W row) css packed = Inr (packed @ map (chunk_byte W row) css)"
  using assms(2)
proof (induction css arbitrary: packed)
  case Nil
  show ?case by simp
next
  case (Cons cs css)
  have "pack_chunk W row cs packed = Inr (packed @ [chunk_byte W row cs])"
    using assms(1) Cons.prems by (intro pack_chunk_eq) simp_all
  then show ?case
    using Cons.IH Cons.prems by simp
qed

lemma py_range3_chunks:
  "length (py_range3 0 W 8) = row_bytes W"
  "j < row_bytes W \<Longrightarrow> py_range3 0 W 8 ! j = 8 * int j"
  "\<forall>cs \<in> set (py_range3 0 W 8). 0 \<le> cs"
proof -
  show "length (py_range3 0 W 8) = row_bytes W"
    by (simp add: py_range3_def row_bytes_def)
  show "py_range3 0 W 8 ! j = 8 * int j" if "j < row_bytes W"
    using that nth_upto [of 0 j "(W + 7) div 8 - 1"]
    by (simp add: py_range3_def row_bytes_def)
  show "\<forall>cs \<in> set (py_range3 0 W 8). 0 \<le> cs"
    by (auto simp: py_range3_def)
qed

lemma pack_row_eq:
  assumes "W \<le> int (length row)"
  shows "pack_row W row packed = Inr (packed @ row_packed W row)"
  unfolding pack_row_def row_packed_def
  using assms py_range3_chunks(3) by (rule foldE_pack_chunk)

lemma foldE_pack_row:
  assumes "\<forall>row \<in> set grid. W \<le> int (length row)"
  shows "foldE (pack_row W) grid packed = Inr (packed @ concat (map (row_packed W) grid))"
  using assms
proof (induction grid arbitrary: packed)
  case Nil
  show ?case by simp
next
  case (Cons row grid)
  have "pack_row W row packed = Inr (packed @ row_packed W row)"
    using Cons.prems by (intro pack_row_eq) simp
  then show ?case
    using Cons.IH Cons.prems by simp
qed

lemma concat_uniform:
  assumes "\<forall>xs \<in> set xss. length xs = n"
  shows "length (concat xss) = length xss * n"
    and "r < length xss \<Longrightarrow> j < n \<Longrightarrow> concat xss ! (r * n + j) = xss ! r ! j"
proof -
  show len: "length (concat xss) = length xss * n"
    using assms by (induction xss) simp_all
  show "concat xss ! (r * n + j) = xss ! r ! j" if "r < length xss" "j < n"
    using assms that
  proof (induction xss arbitrary: r)
    case Nil
    then show ?case by simp
  next
    case (Cons xs xss)
    show ?case
    proof (cases r)
      case 0
      then show ?thesis using Cons.prems by (simp add: nth_append)
    next
      case (Suc r')
      then have "concat xss ! (r' * n + j) = xss ! r' ! j"
        using Cons.prems by (intro Cons.IH) simp_all
      then show ?thesis
        using Suc Cons.prems by (simp add: nth_append)
    qed
  qed
qed

lemma row_packed_props:
  "length (row_packed W row) = row_bytes W"
  "\<forall>byte \<in> set (row_packed W row). 0 \<le> byte \<and> byte < 256"
  "j < row_bytes W \<Longrightarrow> row_packed W row ! j = chunk_byte W row (8 * int j)"
  using chunk_byte_range [of W row]
  by (auto simp: row_packed_def py_range3_chunks)

lemma packed_bit:
  assumes "\<forall>row \<in> set grid. int (length row) = W" "r < length grid" "0 \<le> c" "c < 8 * ((W + 7) div 8)"
  shows "bit (concat (map (row_packed W) grid) ! (r * row_bytes W + nat (c div 8))) (nat (7 - c mod 8))
     \<longleftrightarrow> c < W \<and> grid ! r ! nat c = 1"
proof -
  let ?j = "nat (c div 8)"
  have j: "?j < row_bytes W"
    using assms(3,4) by (simp add: row_bytes_def)
  have u: "\<forall>xs \<in> set (map (row_packed W) grid). length xs = row_bytes W"
    by (simp add: row_packed_props)
  have "concat (map (row_packed W) grid) ! (r * row_bytes W + ?j) = map (row_packed W) grid ! r ! ?j"
    using concat_uniform(2) [OF u, of r ?j] assms(2) j by simp
  also have "\<dots> = chunk_byte W (grid ! r) (8 * int ?j)"
    using assms(2) j by (simp add: row_packed_props)
  finally have e: "concat (map (row_packed W) grid) ! (r * row_bytes W + ?j)
      = chunk_byte W (grid ! r) (8 * (c div 8))"
    using assms(3) by simp
  have n: "nat (7 - c mod 8) < 8" by simp
  have "int (nat (7 - c mod 8)) = 7 - c mod 8"
    by simp
  then have m: "8 * (c div 8) + 7 - int (nat (7 - c mod 8)) = c"
    using mult_div_mod_eq [of 8 c] by linarith
  show ?thesis
    unfolding e bit_chunk_byte m using n by (simp add: land_at_def)
qed

text \<open>
  C2. For a grid whose rows all have width \<open>W\<close>, \<open>save_grid_binary\<close> returns
  \<open>height * ceil(W / 8)\<close> bytes, each in \<open>[0, 256)\<close>; in the group of row \<open>r\<close>, which starts at
  byte \<open>r * ceil(W / 8)\<close>, bit \<open>7 - c mod 8\<close> of byte \<open>c div 8\<close> is set exactly when \<open>c < W\<close> and
  cell \<open>(r, c)\<close> is land, so the bits past the width are zero; and decoding with the width
  and the height gives the grid back.
\<close>

theorem bit_packer_round_trip:
  assumes "0 \<le> W" and "\<forall>row \<in> set grid. int (length row) = W"
  shows "\<exists>packed. save_grid_binary W grid = Inr packed
     \<and> length packed = length grid * nat ((W + 7) div 8)
     \<and> (\<forall>byte \<in> set packed. 0 \<le> byte \<and> byte < 256)
     \<and> (\<forall>r < length grid. \<forall>c. 0 \<le> c \<and> c < 8 * ((W + 7) div 8) \<longrightarrow>
           (bit (packed ! (r * nat ((W + 7) div 8) + nat (c div 8))) (nat (7 - c mod 8))
              \<longleftrightarrow> c < W \<and> grid ! r ! nat c = 1))
     \<and> unpack_bits W (length grid) packed = Some (map (map (\<lambda>v. if v = 1 then 1 else 0)) grid)"
proof -
  let ?packed = "concat (map (row_packed W) grid)"
  have rows: "\<forall>row \<in> set grid. W \<le> int (length row)"
    using assms(2) by simp
  have sv: "save_grid_binary W grid = Inr ?packed"
    using foldE_pack_row [OF rows, of "[]"] by (simp add: save_grid_binary_def)
  have u: "\<forall>xs \<in> set (map (row_packed W) grid). length xs = row_bytes W"
    by (simp add: row_packed_props)
  have len: "length ?packed = length grid * row_bytes W"
    using concat_uniform(1) [OF u] by simp
  have rng: "\<forall>byte \<in> set ?packed. 0 \<le> byte \<and> byte < 256"
    using row_packed_props(2) [of W] by auto
  have bits: "\<forall>r < length grid. \<forall>c. 0 \<le> c \<and> c < 8 * ((W + 7) div 8) \<longrightarrow>
           (bit (?packed ! (r * row_bytes W + nat (c div 8))) (nat (7 - c mod 8))
              \<longleftrightarrow> c < W \<and> grid ! r ! nat c = 1)"
    using packed_bit [OF assms(2)] by blast
  have dec: "map (\<lambda>r. map (\<lambda>c. if bit (?packed ! (r * row_bytes W + nat (c div 8))) (nat (7 - c mod 8))
                                   then 1 else 0) [0..W - 1]) [0..<length grid]
       = map (map (\<lambda>v. if v = 1 then 1 else 0)) grid"
  proof (rule nth_equalityI)
    show "length (map (\<lambda>r. map (\<lambda>c. if bit (?packed ! (r * row_bytes W + nat (c div 8))) (nat (7 - c mod 8))
                                   then 1 else 0) [0..W - 1]) [0..<length grid])
       = length (map (map (\<lambda>v. if v = 1 then 1 else 0)) grid)"
      by simp
  next
    fix r assume "r < length (map (\<lambda>r. map (\<lambda>c. if bit (?packed ! (r * row_bytes W + nat (c div 8))) (nat (7 - c mod 8))
                                   then 1 else 0) [0..W - 1]) [0..<length grid])"
    then have r: "r < length grid" by simp
    then have lr: "int (length (grid ! r)) = W" using assms(2) by simp
    have "map (\<lambda>c. if bit (?packed ! (r * row_bytes W + nat (c div 8))) (nat (7 - c mod 8))
                                   then 1 else 0) [0..W - 1]
        = map (\<lambda>v. if v = 1 then 1 else 0) (grid ! r)"
    proof (rule nth_equalityI)
      show "length (map (\<lambda>c. if bit (?packed ! (r * row_bytes W + nat (c div 8))) (nat (7 - c mod 8))
                                   then 1 else 0) [0..W - 1])
          = length (map (\<lambda>v. if v = 1 then 1 else 0) (grid ! r))"
        using lr assms(1) by simp
    next
      fix i assume "i < length (map (\<lambda>c. if bit (?packed ! (r * row_bytes W + nat (c div 8))) (nat (7 - c mod 8))
                                   then 1 else 0) [0..W - 1])"
      then have i: "int i < W" using assms(1) by simp
      then have up: "[0..W - 1] ! i = int i"
        using nth_upto [of 0 i "W - 1"] by simp
      have "int i < 8 * ((W + 7) div 8)" using i by linarith
      then have "bit (?packed ! (r * row_bytes W + nat (int i div 8))) (nat (7 - int i mod 8))
              \<longleftrightarrow> int i < W \<and> grid ! r ! nat (int i) = 1"
        using packed_bit [OF assms(2) r, of "int i"] by simp
      then show "map (\<lambda>c. if bit (?packed ! (r * row_bytes W + nat (c div 8))) (nat (7 - c mod 8))
                                   then 1 else 0) [0..W - 1] ! i
          = map (\<lambda>v. if v = 1 then 1 else 0) (grid ! r) ! i"
        using i up lr by simp
    qed
    then show "map (\<lambda>r. map (\<lambda>c. if bit (?packed ! (r * row_bytes W + nat (c div 8))) (nat (7 - c mod 8))
                                   then 1 else 0) [0..W - 1]) [0..<length grid] ! r
        = map (map (\<lambda>v. if v = 1 then 1 else 0)) grid ! r"
      using r by simp
  qed
  have un: "unpack_bits W (length grid) ?packed = Some (map (map (\<lambda>v. if v = 1 then 1 else 0)) grid)"
    using len dec by (simp add: unpack_bits_def)
  show ?thesis
    using sv len rng bits un unfolding row_bytes_def by blast
qed

theorem bit_packer_round_trip_witness:
  "save_grid_binary 10 [[0, 0, 1, 1, 1, 0, 0, 0, 0, 1], [1, 0, 0, 0, 0, 0, 0, 1, 1, 0]] = Inr [56, 64, 129, 128]
     \<and> unpack_bits 10 2 [56, 64, 129, 128]
         = Some [[0, 0, 1, 1, 1, 0, 0, 0, 0, 1], [1, 0, 0, 0, 0, 0, 0, 1, 1, 0]]"
proof -
  let ?grid = "[[0, 0, 1, 1, 1, 0, 0, 0, 0, 1], [1, 0, 0, 0, 0, 0, 0, 1, 1, 0]] :: grid"
  have e: "save_grid_binary 10 ?grid = Inr [56, 64, 129, 128]"
    by (simp add: save_grid_binary_def pack_row_def py_range3_def pack_chunk_def pack_bit_def
        py_get_def py_index_def bytearray_append_def upto_rec1)
  have w: "(0 :: int) \<le> 10" by simp
  have l: "\<forall>row \<in> set ?grid. int (length row) = 10" by simp
  obtain packed where a: "save_grid_binary 10 ?grid = Inr packed"
    and b: "unpack_bits 10 (length ?grid) packed = Some (map (map (\<lambda>v. if v = 1 then 1 else 0)) ?grid)"
    using bit_packer_round_trip [OF w l] by blast
  have p: "packed = [56, 64, 129, 128]" using a e by simp
  have n: "length ?grid = 2" by simp
  have m: "map (map (\<lambda>v. if v = 1 then 1 else 0)) ?grid = ?grid" by simp
  have "unpack_bits 10 2 [56, 64, 129, 128] = Some ?grid"
    using b unfolding p n m .
  then show ?thesis using e by (rule conjI [rotated])
qed

end
